theory Spec2Isabelle
  imports Main "HOL-Library.Word"
begin

section \<open>The multistatus package: Workers, the WorkerSet and its printer\<close>

text \<open>
  The package keeps a list of Workers, a \<^verbatim>\<open>sync.WaitGroup\<close> that counts the Workers
  that have not reported yet, and a spinner. \<^verbatim>\<open>Print\<close> repaints the list until the
  WaitGroup is released or the context is cancelled. Go strings are byte strings, and so
  is \<^typ>\<open>string\<close>: every glyph below is spelled as its UTF-8 bytes.
\<close>

subsection \<open>Worker states\<close>

text \<open>
  \<^verbatim>\<open>type WorkerState int\<close> with \<^verbatim>\<open>Completed WorkerState = iota; Failed; Pending\<close>.
  The type is an integer type, so a value other than the three constants can be stored.
\<close>

type_synonym WorkerState = int

definition Completed :: WorkerState where
  "Completed = 0"

definition Failed :: WorkerState where
  "Failed = 1"

definition Pending :: WorkerState where
  "Pending = 2"

text \<open>
  \<^verbatim>\<open>type Worker struct { State WorkerState; Name string; parent *WorkerSet }\<close>.
  One WorkerSet is modelled at a time, so the pointer \<^verbatim>\<open>parent\<close> is either nil
  (\<open>False\<close>) or the address of that set (\<open>True\<close>).
\<close>

record Worker =
  State :: WorkerState
  Name :: string
  parent :: bool

text \<open>The zero value of the struct, \<^verbatim>\<open>Worker{}\<close>.\<close>

definition zero_Worker :: Worker where
  "zero_Worker = \<lparr>State = 0, Name = [], parent = False\<rparr>"

definition Active :: "Worker \<Rightarrow> bool" where
  "Active w = (State w = Pending)"

subsection \<open>The spinner of package go-spin\<close>

text \<open>
  \<^verbatim>\<open>spin.New()\<close> selects the frame set \<^verbatim>\<open>Box1\<close> (ten Braille runes) and position 0;
  \<^verbatim>\<open>Next\<close> returns \<^verbatim>\<open>string(frames[pos % length])\<close> and increments the position.
  multistatus never changes the frame set, so only the position is state.
\<close>

definition Box1 :: "string list" where
  "Box1 = [[CHR 0xE2, CHR 0xA0, CHR 0x8B], [CHR 0xE2, CHR 0xA0, CHR 0x99],
           [CHR 0xE2, CHR 0xA0, CHR 0xB9], [CHR 0xE2, CHR 0xA0, CHR 0xB8],
           [CHR 0xE2, CHR 0xA0, CHR 0xBC], [CHR 0xE2, CHR 0xA0, CHR 0xB4],
           [CHR 0xE2, CHR 0xA0, CHR 0xA6], [CHR 0xE2, CHR 0xA0, CHR 0xA7],
           [CHR 0xE2, CHR 0xA0, CHR 0x87], [CHR 0xE2, CHR 0xA0, CHR 0x8F]]"

record Spinner =
  pos :: nat

definition spin_New :: Spinner where
  "spin_New = \<lparr>pos = 0\<rparr>"

definition Next :: "Spinner \<Rightarrow> string \<times> Spinner" where
  "Next s = (Box1 ! (pos s mod length Box1), s\<lparr>pos := Suc (pos s)\<rparr>)"

subsection \<open>The counter of sync.WaitGroup\<close>

text \<open>
  The WaitGroup keeps its counter in 32 bits, read as a signed number. \<^verbatim>\<open>Add(delta)\<close>
  adds with wrap-around and panics when the result is negative; \<^verbatim>\<open>Done()\<close> is
  \<^verbatim>\<open>Add(-1)\<close>. A \<^verbatim>\<open>Wait\<close> that was blocked and is woken looks at the counter
  again, and panics when it is no longer zero (``WaitGroup is reused before previous Wait
  has returned'').
\<close>

datatype panic = NegativeCounter | NilDereference | NoSuchWorker | WaitGroupReused

definition wg_Add :: "32 word \<Rightarrow> 32 word \<Rightarrow> panic + 32 word" where
  "wg_Add delta c = (let v = c + delta in if sint v < 0 then Inl NegativeCounter else Inr v)"

definition wg_Done :: "32 word \<Rightarrow> panic + 32 word" where
  "wg_Done c = wg_Add (- 1) c"

subsection \<open>The WorkerSet\<close>

text \<open>
  \<^verbatim>\<open>Workers []*Worker\<close> holds pointers; a Worker is only ever appended, so the handle
  that \<^verbatim>\<open>Add\<close> returns is modelled by the position of the Worker in the list, and a
  write through the handle is a write at that position.
\<close>

record WorkerSet =
  Workers :: "Worker list"
  wg :: "32 word"
  spinner :: Spinner

definition New :: WorkerSet where
  "New = \<lparr>Workers = [], wg = 0, spinner = spin_New\<rparr>"

definition Add :: "string \<Rightarrow> WorkerSet \<Rightarrow> panic + (nat \<times> WorkerSet)" where
  "Add s w =
     (case wg_Add 1 (wg w) of
        Inl e \<Rightarrow> Inl e
      | Inr v \<Rightarrow>
          Inr (length (Workers w),
               w\<lparr>wg := v, Workers := Workers w @ [\<lparr>State = Pending, Name = s, parent = True\<rparr>]\<rparr>))"

text \<open>
  \<^verbatim>\<open>w.State = Completed; w.parent.wg.Done()\<close>: the state is written first, then the
  parent is dereferenced and its counter decremented. Neither method reads the state.
  A position that \<^verbatim>\<open>Add\<close> never returned is no Worker of the set.
\<close>

definition Done :: "nat \<Rightarrow> WorkerSet \<Rightarrow> panic + WorkerSet" where
  "Done i w =
     (if length (Workers w) \<le> i then Inl NoSuchWorker
      else
        let w1 = w\<lparr>Workers := (Workers w)[i := (Workers w ! i)\<lparr>State := Completed\<rparr>]\<rparr> in
        if \<not> parent (Workers w ! i) then Inl NilDereference
        else
          (case wg_Done (wg w1) of
             Inl e \<Rightarrow> Inl e
           | Inr v \<Rightarrow> Inr (w1\<lparr>wg := v\<rparr>)))"

definition Fail :: "nat \<Rightarrow> WorkerSet \<Rightarrow> panic + WorkerSet" where
  "Fail i w =
     (if length (Workers w) \<le> i then Inl NoSuchWorker
      else
        let w1 = w\<lparr>Workers := (Workers w)[i := (Workers w ! i)\<lparr>State := Failed\<rparr>]\<rparr> in
        if \<not> parent (Workers w ! i) then Inl NilDereference
        else
          (case wg_Done (wg w1) of
             Inl e \<Rightarrow> Inl e
           | Inr v \<Rightarrow> Inr (w1\<lparr>wg := v\<rparr>)))"

subsection \<open>One repaint: the method print\<close>

definition ESC :: char where
  "ESC = CHR 0x1B"

definition newline :: string where
  "newline = [CHR 0x0A]"

definition cursor_up :: string where
  "cursor_up = ESC # ''[A''"

definition cursor_down :: string where
  "cursor_down = ESC # ''[B''"

definition clear_line :: string where
  "clear_line = ESC # ''[2K''"

definition hide_cursor :: string where
  "hide_cursor = ESC # ''[?25l''"

definition show_cursor :: string where
  "show_cursor = ESC # ''[?25h''"

definition cross :: string where
  "cross = [CHR 0xE2, CHR 0x9C, CHR 0x97]"

definition check :: string where
  "check = [CHR 0xE2, CHR 0x9C, CHR 0x94]"

definition red_cross :: string where
  "red_cross = ESC # ''[0;31m'' @ cross @ ESC # ''[0m''"

definition green_check :: string where
  "green_check = ESC # ''[0;32m'' @ check @ ESC # ''[0m''"

definition Repeat :: "string \<Rightarrow> nat \<Rightarrow> string" where
  "Repeat s n = concat (replicate n s)"

text \<open>The body of the loop over the Workers: choose the glyph, format the line.\<close>

definition status_line :: "string \<Rightarrow> string \<Rightarrow> string \<Rightarrow> Worker \<Rightarrow> string" where
  "status_line failed completed inProgress v =
     (let p = (if State v = Completed then completed
               else if State v = Failed then failed
               else inProgress)
      in ''  '' @ p @ '' '' @ Name v @ newline)"

text \<open>
  \<open>isTerm\<close> is the answer that \<^verbatim>\<open>terminal.IsTerminal\<close> gives to the call inside
  \<^verbatim>\<open>print\<close>. The method evaluates \<^verbatim>\<open>w.Workers\<close> six times and holds no lock, so
  an \<^verbatim>\<open>Add\<close> of another goroutine may run between two evaluations: \<open>rd k\<close> is what
  evaluation \<open>k\<close> finds. Evaluations 0 to 3 are the four \<^verbatim>\<open>len(w.Workers)\<close> of the
  wipe section, 4 is the \<^verbatim>\<open>range\<close> (the Workers as the loop reads them, one after
  the other), 5 is the \<^verbatim>\<open>len(w.Workers)\<close> of the last cursor movement. The result
  is the text written to stdout and the spinner after the call.
\<close>

definition print_reads :: "bool \<Rightarrow> bool \<Rightarrow> (nat \<Rightarrow> Worker list) \<Rightarrow> Spinner \<Rightarrow> string \<times> Spinner" where
  "print_reads isTerm end rd sp =
     (if isTerm then
        (let (inProgress, sp') = Next sp in
           (Repeat newline (length (rd 0))
              @ Repeat cursor_up (length (rd 1))
              @ Repeat (cursor_down @ clear_line) (length (rd 2))
              @ Repeat cursor_up (length (rd 3))
              @ concat (map (status_line red_cross green_check inProgress) (rd 4))
              @ hide_cursor
              @ (if end then show_cursor else Repeat cursor_up (length (rd 5))),
            sp'))
      else
        (concat (map (status_line cross check ''-'') (rd 4)), sp))"

text \<open>
  A repaint during which the set does not change: every evaluation finds the same
  Workers. The wipe section is then the four \<^verbatim>\<open>strings.Repeat\<close> with one count.
\<close>

definition wipe :: "nat \<Rightarrow> string" where
  "wipe n =
     Repeat newline n @ Repeat cursor_up n @ Repeat (cursor_down @ clear_line) n
       @ Repeat cursor_up n"

definition print :: "bool \<Rightarrow> bool \<Rightarrow> WorkerSet \<Rightarrow> string \<times> WorkerSet" where
  "print isTerm end w =
     (let (s, sp) = print_reads isTerm end (\<lambda>k. Workers w) (spinner w)
      in (s, w\<lparr>spinner := sp\<rparr>))"

subsection \<open>The environment of a call of Print\<close>

text \<open>
  \<^verbatim>\<open>Print\<close> runs beside the caller's goroutines, the goroutine it starts itself
  (\<^verbatim>\<open>w.wg.Wait(); done <- true\<close>) and the Go scheduler. A run is driven by the list of
  what these do, in the order in which it happens:
  \<^item> \<open>EvAdd\<close>, \<open>EvDone\<close>, \<open>EvFail\<close>: a caller's goroutine calls \<^verbatim>\<open>Add\<close>, \<^verbatim>\<open>Done\<close>
    or \<^verbatim>\<open>Fail\<close>; \<open>EvCancel\<close>: the context is cancelled;
  \<^item> \<open>EvWait\<close>: the started goroutine runs as far as it can: it calls
    \<^verbatim>\<open>w.wg.Wait()\<close>, or resumes in it after it was woken;
  \<^item> \<open>WakeCancel\<close>, \<open>WakeTimer\<close>, \<open>WakeDone\<close>: the scheduler offers a channel
    operation to \<^verbatim>\<open>Print\<close>: \<^verbatim>\<open><-ctx.Done()\<close>, \<^verbatim>\<open><-time.After(...)\<close>, \<^verbatim>\<open><-done\<close>.
    An offer that is not ready (the context is not cancelled, \<^verbatim>\<open>Wait\<close> has not
    returned) or that \<^verbatim>\<open>Print\<close> is not waiting for leaves it blocked.
  The answers of \<^verbatim>\<open>terminal.IsTerminal(int(os.Stdout.Fd()))\<close> are a function \<open>tty\<close>
  of the number of the call: call 0 is the one at the entry of \<^verbatim>\<open>Print\<close>.
\<close>

datatype event =
  EvAdd string | EvDone nat | EvFail nat | EvCancel | EvWait
  | WakeCancel | WakeTimer | WakeDone

text \<open>
  Where the started goroutine stands: before \<^verbatim>\<open>Wait\<close>; blocked in \<^verbatim>\<open>Wait\<close>; woken
  in \<^verbatim>\<open>Wait\<close> by the \<^verbatim>\<open>Done\<close> that brought the counter to zero, and not yet run
  again; or past \<^verbatim>\<open>Wait\<close> and blocked in the send on the unbuffered channel
  \<^verbatim>\<open>done\<close>.
\<close>

datatype waiter = NotStarted | Waiting | Woken | Released

record proc =
  wset :: WorkerSet
  cancelled :: bool
  waiter :: waiter
  queries :: nat
  written :: "string list"

text \<open>
  \<^verbatim>\<open>Wait\<close> returns at once when the counter is zero. A blocked \<^verbatim>\<open>Wait\<close> is woken by
  the \<^verbatim>\<open>Done\<close> that brings the counter to zero; when the goroutine runs again it
  returns from \<^verbatim>\<open>Wait\<close> if the counter is still zero, and panics if an \<^verbatim>\<open>Add\<close>
  has raised it in between.
\<close>

definition wake_waiter :: "proc \<Rightarrow> proc" where
  "wake_waiter p =
     (if waiter p = Waiting \<and> wg (wset p) = 0 then p\<lparr>waiter := Woken\<rparr> else p)"

fun run_waiter :: "proc \<Rightarrow> panic + proc" where
  "run_waiter p =
     (case waiter p of
        NotStarted \<Rightarrow> Inr (p\<lparr>waiter := (if wg (wset p) = 0 then Released else Waiting)\<rparr>)
      | Waiting \<Rightarrow> Inr p
      | Woken \<Rightarrow> (if wg (wset p) = 0 then Inr (p\<lparr>waiter := Released\<rparr>) else Inl WaitGroupReused)
      | Released \<Rightarrow> Inr p)"

fun env_step :: "event \<Rightarrow> proc \<Rightarrow> panic + proc" where
  "env_step (EvAdd s) p =
     (case Add s (wset p) of Inl e \<Rightarrow> Inl e | Inr (h, w) \<Rightarrow> Inr (p\<lparr>wset := w\<rparr>))"
| "env_step (EvDone i) p =
     (case Done i (wset p) of Inl e \<Rightarrow> Inl e | Inr w \<Rightarrow> Inr (wake_waiter (p\<lparr>wset := w\<rparr>)))"
| "env_step (EvFail i) p =
     (case Fail i (wset p) of Inl e \<Rightarrow> Inl e | Inr w \<Rightarrow> Inr (wake_waiter (p\<lparr>wset := w\<rparr>)))"
| "env_step EvCancel p = Inr (p\<lparr>cancelled := True\<rparr>)"
| "env_step EvWait p = run_waiter p"
| "env_step WakeCancel p = Inr p"
| "env_step WakeTimer p = Inr p"
| "env_step WakeDone p = Inr p"

subsection \<open>Print\<close>

text \<open>
  How a run ends: \<^verbatim>\<open>Print\<close> returned (after the case \<^verbatim>\<open><-ctx.Done()\<close> or after the
  receive from \<^verbatim>\<open>done\<close>), it is still blocked when the events run out, or a caller's
  goroutine or the started one panicked and took the process down. \<open>written\<close> holds the text of each
  call of \<^verbatim>\<open>print\<close>, in order; stdout is their concatenation.
\<close>

datatype exit_path = ByCancel | ByDone

datatype outcome = Returned exit_path proc | Blocked proc | Panicked panic proc

definition repaint :: "(nat \<Rightarrow> bool) \<Rightarrow> bool \<Rightarrow> proc \<Rightarrow> proc" where
  "repaint tty end p =
     (let (s, w) = print (tty (queries p)) end (wset p)
      in p\<lparr>wset := w, queries := Suc (queries p), written := written p @ [s]\<rparr>)"

text \<open>The loop \<^verbatim>\<open>for !end { select { ... } }\<close> of the terminal branch.\<close>

fun select_loop :: "(nat \<Rightarrow> bool) \<Rightarrow> event list \<Rightarrow> proc \<Rightarrow> outcome" where
  "select_loop tty [] p = Blocked p"
| "select_loop tty (WakeCancel # es) p =
     (if cancelled p then Returned ByCancel (repaint tty True p) else select_loop tty es p)"
| "select_loop tty (WakeTimer # es) p = select_loop tty es (repaint tty False p)"
| "select_loop tty (WakeDone # es) p =
     (if waiter p = Released then Returned ByDone (repaint tty True p) else select_loop tty es p)"
| "select_loop tty (e # es) p =
     (case env_step e p of Inl x \<Rightarrow> Panicked x p | Inr p' \<Rightarrow> select_loop tty es p')"

text \<open>The other branch: \<^verbatim>\<open><-done; w.print(true)\<close>.\<close>

fun await_done :: "(nat \<Rightarrow> bool) \<Rightarrow> event list \<Rightarrow> proc \<Rightarrow> outcome" where
  "await_done tty [] p = Blocked p"
| "await_done tty (WakeDone # es) p =
     (if waiter p = Released then Returned ByDone (repaint tty True p) else await_done tty es p)"
| "await_done tty (e # es) p =
     (case env_step e p of Inl x \<Rightarrow> Panicked x p | Inr p' \<Rightarrow> await_done tty es p')"

text \<open>
  The state at the entry of \<^verbatim>\<open>Print\<close>: \<open>ctx\<close> tells whether the context is already
  cancelled, the goroutine is started and has not run yet, the terminal has been asked
  once, nothing is written.
\<close>

definition start :: "bool \<Rightarrow> WorkerSet \<Rightarrow> proc" where
  "start ctx w = \<lparr>wset = w, cancelled = ctx, waiter = NotStarted, queries = 1, written = []\<rparr>"

definition Print :: "(nat \<Rightarrow> bool) \<Rightarrow> bool \<Rightarrow> WorkerSet \<Rightarrow> event list \<Rightarrow> outcome" where
  "Print tty ctx w es =
     (if tty 0 then select_loop tty es (start ctx w) else await_done tty es (start ctx w))"

subsection \<open>Specification vocabulary\<close>

text \<open>\<^verbatim>\<open>Done\<close> and \<^verbatim>\<open>Fail\<close> differ in the state they write, and in nothing else.\<close>

definition mark :: "WorkerState \<Rightarrow> nat \<Rightarrow> WorkerSet \<Rightarrow> panic + WorkerSet" where
  "mark st i w =
     (if length (Workers w) \<le> i then Inl NoSuchWorker
      else if \<not> parent (Workers w ! i) then Inl NilDereference
      else if sint (wg w - 1) < 0 then Inl NegativeCounter
      else Inr (w\<lparr>Workers := (Workers w)[i := (Workers w ! i)\<lparr>State := st\<rparr>], wg := wg w - 1\<rparr>))"

text \<open>The state a run ends in, and the names that the \<open>EvAdd\<close> events add, in order.\<close>

fun final :: "outcome \<Rightarrow> proc" where
  "final (Returned x p) = p"
| "final (Blocked p) = p"
| "final (Panicked x p) = p"

fun added :: "event list \<Rightarrow> string list" where
  "added [] = []"
| "added (EvAdd s # es) = s # added es"
| "added (e # es) = added es"

text \<open>
  \<open>frame_of tty q names es f\<close>: the text \<open>f\<close> is what \<^verbatim>\<open>print\<close> writes, in the format
  that terminal check number \<open>q\<close> selects, for a set whose Workers are named \<open>names\<close>
  followed by the first few names that \<open>es\<close> adds.
\<close>

definition frame_of :: "(nat \<Rightarrow> bool) \<Rightarrow> nat \<Rightarrow> string list \<Rightarrow> event list \<Rightarrow> string \<Rightarrow> bool" where
  "frame_of tty q names es f \<longleftrightarrow>
     (\<exists>k e ws. f = fst (print (tty q) e ws)
        \<and> map Name (Workers ws) = names @ take k (added es))"

text \<open>
  The glyph in front of a name, as the specification words it: the success glyph for
  \<open>Completed\<close>, the failure glyph for \<open>Failed\<close>, the pending glyph for anything
  else; coloured, with the spinner's frame as pending glyph, on a terminal.
\<close>

definition glyph :: "bool \<Rightarrow> string \<Rightarrow> WorkerState \<Rightarrow> string" where
  "glyph isTerm frame st =
     (if st = Completed then (if isTerm then green_check else check)
      else if st = Failed then (if isTerm then red_cross else cross)
      else (if isTerm then frame else ''-''))"

text \<open>How often the byte sequence \<open>pat\<close> occurs in a text.\<close>

fun count_seq :: "string \<Rightarrow> string \<Rightarrow> nat" where
  "count_seq pat [] = 0"
| "count_seq pat (c # cs) = (if take (length pat) (c # cs) = pat then 1 else 0) + count_seq pat cs"

text \<open>
  The block of one repaint as the specification describes it: on a terminal the wipe
  section, then one line per Worker with its glyph, then the cursor sequences; without
  a terminal the lines alone.
\<close>

definition block :: "bool \<Rightarrow> bool \<Rightarrow> string \<Rightarrow> Worker list \<Rightarrow> string" where
  "block isTerm end frame vs =
     (if isTerm then wipe (length vs) else [])
       @ concat (map (\<lambda>v. ''  '' @ glyph isTerm frame (State v) @ '' '' @ Name v @ newline) vs)
       @ (if isTerm then hide_cursor @ (if end then show_cursor else Repeat cursor_up (length vs))
          else [])"








subsection \<open>Concrete sets, terminals and runs\<close>

text \<open>
  Sets as calls of \<^verbatim>\<open>Add\<close> on a new set leave them, with one Worker \<open>a\<close> or with
  two Workers \<open>a\<close> and \<open>b\<close>, and the second after \<open>a\<close> is done, and after \<open>a\<close> has
  then failed as well.
\<close>

definition one_Worker :: WorkerSet where
  "one_Worker =
     \<lparr>Workers = [\<lparr>State = Pending, Name = ''a'', parent = True\<rparr>], wg = 1, spinner = spin_New\<rparr>"

definition two_Workers :: WorkerSet where
  "two_Workers =
     \<lparr>Workers = [\<lparr>State = Pending, Name = ''a'', parent = True\<rparr>,
                 \<lparr>State = Pending, Name = ''b'', parent = True\<rparr>],
      wg = 2, spinner = spin_New\<rparr>"

definition a_done :: WorkerSet where
  "a_done =
     \<lparr>Workers = [\<lparr>State = Completed, Name = ''a'', parent = True\<rparr>,
                 \<lparr>State = Pending, Name = ''b'', parent = True\<rparr>],
      wg = 1, spinner = spin_New\<rparr>"

definition a_failed :: WorkerSet where
  "a_failed =
     \<lparr>Workers = [\<lparr>State = Failed, Name = ''a'', parent = True\<rparr>,
                 \<lparr>State = Pending, Name = ''b'', parent = True\<rparr>],
      wg = 0, spinner = spin_New\<rparr>"

text \<open>
  Terminals: one that answers every check the same way, and one that is a terminal at
  the entry of \<^verbatim>\<open>Print\<close> only.
\<close>

definition always :: "bool \<Rightarrow> nat \<Rightarrow> bool" where
  "always b k = b"


text \<open>One that is a terminal at the entry and in the first repaint, and no longer then.\<close>

definition two_checks :: "nat \<Rightarrow> bool" where
  "two_checks k = (k < 2)"




text \<open>
  A run on a terminal that is cancelled while \<open>a\<close> has failed and \<open>b\<close> is pending.
\<close>

definition cancelled_run :: outcome where
  "cancelled_run = Print (always True) False two_Workers [EvFail 0, EvCancel, WakeCancel]"


text \<open>A run on a new set in which the timer ticks before the goroutine has run.\<close>

definition idle_ticks :: outcome where
  "idle_ticks = Print (always True) False New [WakeTimer, EvWait, WakeDone]"

section \<open>Properties\<close>


declare run_waiter.simps [simp del]

subsection \<open>The operations on a WorkerSet\<close>

lemma Done_mark: "Done i w = mark Completed i w"
  by (simp add: Done_def mark_def wg_Done_def wg_Add_def Let_def)

lemma Fail_mark: "Fail i w = mark Failed i w"
  by (simp add: Fail_def mark_def wg_Done_def wg_Add_def Let_def)

lemma mark_Inr:
  "mark st i w = Inr w' \<longleftrightarrow>
     i < length (Workers w) \<and> parent (Workers w ! i) \<and> 0 \<le> sint (wg w - 1) \<and>
     w' = w\<lparr>Workers := (Workers w)[i := (Workers w ! i)\<lparr>State := st\<rparr>], wg := wg w - 1\<rparr>"
  by (auto simp: mark_def)

lemma mark_at_zero:
  "i < length (Workers w) \<Longrightarrow> parent (Workers w ! i) \<Longrightarrow> wg w = 0 \<Longrightarrow>
     mark st i w = Inl NegativeCounter"
  by (simp add: mark_def)

lemma Add_Inr:
  "Add s w = Inr (h, w') \<longleftrightarrow>
     0 \<le> sint (wg w + 1) \<and> h = length (Workers w) \<and>
     w' = w\<lparr>wg := wg w + 1, Workers := Workers w @ [\<lparr>State = Pending, Name = s, parent = True\<rparr>]\<rparr>"
  by (auto simp: Add_def wg_Add_def Let_def split: sum.splits)

lemma mark_ignores_state:
  "i < length (Workers w) \<Longrightarrow>
     mark st i (w\<lparr>Workers := (Workers w)[i := (Workers w ! i)\<lparr>State := s0\<rparr>]\<rparr>) = mark st i w"
  by (simp add: mark_def)

lemma mark_succeeds:
  "i < length (Workers w) \<Longrightarrow> parent (Workers w ! i) \<Longrightarrow>
     (\<exists>w'. mark st i w = Inr w') \<longleftrightarrow> 0 \<le> sint (wg w - 1)"
  by (simp add: mark_Inr)

lemma mark_effect:
  "mark st i w = Inr w' \<Longrightarrow> State (Workers w' ! i) = st \<and> wg w' = wg w - 1"
  by (auto simp: mark_Inr)

lemma mark_twice:
  assumes "mark st i w = Inr w'" and "mark st' i w' = Inr w''"
  shows "State (Workers w'' ! i) = st' \<and> wg w'' = wg w - 2"
proof -
  from assms(1) have "wg w' = wg w - 1" by (simp add: mark_effect)
  moreover from assms(2) have "State (Workers w'' ! i) = st'" and "wg w'' = wg w' - 1"
    by (simp_all add: mark_effect)
  ultimately show ?thesis by simp
qed

text \<open>
  C9. \<^verbatim>\<open>Done\<close> and \<^verbatim>\<open>Fail\<close> never look at the state the Worker is in: starting them
  from any other state \<open>s0\<close> of the Worker gives the same result, and whether they panic
  depends on the counter alone. A call that returns has written its own state and has
  taken one off the counter, so a second mark of the same Worker takes a second one off
  (the counter is two lower, and the call is not skipped), and the state is that of the
  last call. At counter zero the decrement is not held back either: the call panics with
  the negative counter.
\<close>

theorem terminal_mark_ignores_state:
  assumes "i < length (Workers w)" and "parent (Workers w ! i)"
  shows "Done i (w\<lparr>Workers := (Workers w)[i := (Workers w ! i)\<lparr>State := s0\<rparr>]\<rparr>) = Done i w
    \<and> Fail i (w\<lparr>Workers := (Workers w)[i := (Workers w ! i)\<lparr>State := s0\<rparr>]\<rparr>) = Fail i w
    \<and> ((\<exists>w'. Done i w = Inr w') \<longleftrightarrow> 0 \<le> sint (wg w - 1))
    \<and> ((\<exists>w'. Fail i w = Inr w') \<longleftrightarrow> 0 \<le> sint (wg w - 1))
    \<and> (Done i w = Inr w' \<longrightarrow> State (Workers w' ! i) = Completed \<and> wg w' = wg w - 1)
    \<and> (Fail i w = Inr w' \<longrightarrow> State (Workers w' ! i) = Failed \<and> wg w' = wg w - 1)
    \<and> (Done i w = Inr w' \<and> Fail i w' = Inr w'' \<longrightarrow>
          State (Workers w'' ! i) = Failed \<and> wg w'' = wg w - 2)
    \<and> (Fail i w = Inr w' \<and> Done i w' = Inr w'' \<longrightarrow>
          State (Workers w'' ! i) = Completed \<and> wg w'' = wg w - 2)
    \<and> (Done i w = Inr w' \<and> Done i w' = Inr w'' \<longrightarrow>
          State (Workers w'' ! i) = Completed \<and> wg w'' = wg w - 2)
    \<and> (wg w = 0 \<longrightarrow> Done i w = Inl NegativeCounter \<and> Fail i w = Inl NegativeCounter)"
  unfolding Done_mark Fail_mark
  using assms mark_ignores_state [of i w] mark_succeeds [of i w] mark_effect [of _ i w w']
    mark_twice [of _ i w w' _ w''] mark_at_zero [of i w]
  by auto

lemma two_Workers_marks:
  "Done 0 two_Workers = Inr a_done" "Fail 0 a_done = Inr a_failed"
  by (simp_all add: Done_def Fail_def two_Workers_def a_done_def a_failed_def
      wg_Done_def wg_Add_def Let_def Completed_def Failed_def Pending_def)

theorem terminal_mark_ignores_state_witness:
  "0 < length (Workers two_Workers) \<and> parent (Workers two_Workers ! 0)
   \<and> Done 0 two_Workers = Inr a_done \<and> Fail 0 a_done = Inr a_failed
   \<and> State (Workers a_failed ! 0) = Failed \<and> wg a_failed = wg two_Workers - 2"
proof -
  have h1: "0 < length (Workers two_Workers)" and h2: "parent (Workers two_Workers ! 0)"
    by (simp_all add: two_Workers_def)
  from terminal_mark_ignores_state [OF h1 h2, of _ a_done a_failed]
  show ?thesis using h1 h2 two_Workers_marks by simp
qed

subsection \<open>The text of one repaint\<close>

lemma print_True:
  "fst (print True e w) =
     wipe (length (Workers w))
       @ concat (map (status_line red_cross green_check (fst (Next (spinner w)))) (Workers w))
       @ hide_cursor @ (if e then show_cursor else Repeat cursor_up (length (Workers w)))"
  by (simp add: print_def print_reads_def wipe_def Let_def split: prod.splits)

lemma print_False:
  "fst (print False e w) = concat (map (status_line cross check ''-'') (Workers w))"
  by (simp add: print_def print_reads_def)

lemma print_keeps:
  "Workers (snd (print t e w)) = Workers w" "wg (snd (print t e w)) = wg w"
  by (simp_all add: print_def split: prod.splits)


lemma mark_Active:
  assumes "mark st i w = Inr w'" and "st \<noteq> Pending"
  shows "length (Workers w') = length (Workers w)"
    and "j < length (Workers w') \<Longrightarrow> Active (Workers w' ! j) \<Longrightarrow> Active (Workers w ! j)"
  using assms by (auto simp: mark_Inr Active_def nth_list_update split: if_splits)

subsection \<open>The zero value of a Worker\<close>

text \<open>
  C10. The constants are numbered \<open>Completed = 0\<close>, \<open>Failed = 1\<close>, \<open>Pending = 2\<close>,
  so the zero value of a Worker is in state \<open>Completed\<close>: it is not \<open>Active\<close>, and a
  repaint of a set that holds it prints the success glyph for it, in both formats. A
  new set has no Worker; the Worker that \<^verbatim>\<open>Add\<close> appends is \<open>Pending\<close>, and
  \<^verbatim>\<open>Done\<close> and \<^verbatim>\<open>Fail\<close> make no Worker \<open>Pending\<close> that was not.
\<close>

theorem zero_Worker_reads_Completed:
  "Completed = 0 \<and> Failed = 1 \<and> Pending = 2
   \<and> State zero_Worker = Completed \<and> \<not> Active zero_Worker
   \<and> fst (print True e (w\<lparr>Workers := [zero_Worker]\<rparr>))
       = wipe 1 @ ''  '' @ green_check @ '' '' @ newline @ hide_cursor
           @ (if e then show_cursor else Repeat cursor_up 1)
   \<and> fst (print False e (w\<lparr>Workers := [zero_Worker]\<rparr>)) = ''  '' @ check @ '' '' @ newline
   \<and> Workers New = []
   \<and> (Add s w = Inr (h, w') \<longrightarrow>
        h = length (Workers w) \<and> take h (Workers w') = Workers w
        \<and> Workers w' ! h = \<lparr>State = Pending, Name = s, parent = True\<rparr>
        \<and> Active (Workers w' ! h))
   \<and> (Done i w = Inr w' \<or> Fail i w = Inr w' \<longrightarrow>
        length (Workers w') = length (Workers w)
        \<and> (\<forall>j<length (Workers w'). Active (Workers w' ! j) \<longrightarrow> Active (Workers w ! j)))"
proof -
  have enc: "Completed = 0 \<and> Failed = 1 \<and> Pending = 2"
    by (simp add: Completed_def Failed_def Pending_def)
  have zero: "State zero_Worker = Completed \<and> \<not> Active zero_Worker"
    by (simp add: zero_Worker_def Active_def Completed_def Pending_def)
  have tfr: "fst (print True e (w\<lparr>Workers := [zero_Worker]\<rparr>))
       = wipe 1 @ ''  '' @ green_check @ '' '' @ newline @ hide_cursor
           @ (if e then show_cursor else Repeat cursor_up 1)"
    by (simp add: print_True status_line_def zero_Worker_def Completed_def)
  have plain: "fst (print False e (w\<lparr>Workers := [zero_Worker]\<rparr>)) = ''  '' @ check @ '' '' @ newline"
    by (simp add: print_False status_line_def zero_Worker_def Completed_def)
  have fresh: "Workers New = []"
    by (simp add: New_def)
  have add: "Add s w = Inr (h, w') \<longrightarrow>
        h = length (Workers w) \<and> take h (Workers w') = Workers w
        \<and> Workers w' ! h = \<lparr>State = Pending, Name = s, parent = True\<rparr>
        \<and> Active (Workers w' ! h)"
    by (auto simp: Add_Inr Active_def)
  have marks: "Done i w = Inr w' \<or> Fail i w = Inr w' \<longrightarrow>
        length (Workers w') = length (Workers w)
        \<and> (\<forall>j<length (Workers w'). Active (Workers w' ! j) \<longrightarrow> Active (Workers w ! j))"
    unfolding Done_mark Fail_mark
    using mark_Active [of Completed i w w'] mark_Active [of Failed i w w']
    by (auto simp: Completed_def Failed_def Pending_def)
  from enc zero tfr plain fresh add marks show ?thesis by blast
qed

lemma Add_New: "Add ''a'' New = Inr (0, one_Worker)"
  by (simp add: Add_def New_def one_Worker_def wg_Add_def)

theorem zero_Worker_reads_Completed_witness:
  "Add ''a'' New = Inr (0, one_Worker) \<and> Active (Workers one_Worker ! 0)
   \<and> \<not> Active zero_Worker"
proof -
  note t = zero_Worker_reads_Completed [of True New "''a''" 0 one_Worker 0]
  from t Add_New have "Active (Workers one_Worker ! 0)" by blast
  moreover from t have "\<not> Active zero_Worker" by blast
  ultimately show ?thesis using Add_New by blast
qed

subsection \<open>Runs of Print: what every repaint writes\<close>

lemma select_loop_env:
  "e \<noteq> WakeCancel \<Longrightarrow> e \<noteq> WakeTimer \<Longrightarrow> e \<noteq> WakeDone \<Longrightarrow>
     select_loop tty (e # es) p =
       (case env_step e p of Inl x \<Rightarrow> Panicked x p | Inr p' \<Rightarrow> select_loop tty es p')"
  by (cases e) simp_all

lemma await_done_env:
  "e \<noteq> WakeDone \<Longrightarrow>
     await_done tty (e # es) p =
       (case env_step e p of Inl x \<Rightarrow> Panicked x p | Inr p' \<Rightarrow> await_done tty es p')"
  by (cases e) simp_all

lemma await_done_select_loop:
  "await_done tty es p
     = select_loop tty (filter (\<lambda>e. e \<noteq> WakeCancel \<and> e \<noteq> WakeTimer) es) p"
proof (induction es arbitrary: p)
  case Nil
  show ?case by simp
next
  case (Cons e es)
  show ?case
    by (cases e) (simp_all add: Cons.IH split: sum.splits)
qed

lemma added_filter:
  "added (filter (\<lambda>e. e \<noteq> WakeCancel \<and> e \<noteq> WakeTimer) es) = added es"
  by (induction es rule: added.induct) simp_all

lemma added_Cons: "added (e # es) = added [e] @ added es"
  by (cases e) simp_all

lemma env_step_cases:
  assumes "env_step e p = Inr p'"
  obtains
    (Add) s h w where "e = EvAdd s" "Add s (wset p) = Inr (h, w)" "p' = p\<lparr>wset := w\<rparr>"
  | (Mark) i st w where "e = EvDone i \<and> st = Completed \<or> e = EvFail i \<and> st = Failed"
      "mark st i (wset p) = Inr w" "p' = wake_waiter (p\<lparr>wset := w\<rparr>)"
  | (Cancel) "e = EvCancel" "p' = p\<lparr>cancelled := True\<rparr>"
  | (Wait) "e = EvWait" "run_waiter p = Inr p'"
  | (Wake) "e = WakeCancel \<or> e = WakeTimer \<or> e = WakeDone" "p' = p"
proof (cases e)
  case (EvAdd s)
  with assms show ?thesis
    by (auto split: sum.splits prod.splits intro: Add)
next
  case (EvDone i)
  with assms show ?thesis
    by (auto simp: Done_mark split: sum.splits intro: Mark)
next
  case (EvFail i)
  with assms show ?thesis
    by (auto simp: Fail_mark split: sum.splits intro: Mark)
next
  case EvCancel
  with assms show ?thesis by (auto intro: Cancel)
next
  case EvWait
  with assms show ?thesis by (auto intro: Wait)
next
  case WakeCancel
  with assms show ?thesis by (auto intro: Wake)
next
  case WakeTimer
  with assms show ?thesis by (auto intro: Wake)
next
  case WakeDone
  with assms show ?thesis by (auto intro: Wake)
qed

lemma wake_waiter_keeps:
  "wset (wake_waiter p) = wset p" "written (wake_waiter p) = written p"
  "queries (wake_waiter p) = queries p" "cancelled (wake_waiter p) = cancelled p"
  by (simp_all add: wake_waiter_def)

lemma run_waiter_keeps:
  assumes "run_waiter p = Inr p'"
  shows "wset p' = wset p" and "written p' = written p" and "queries p' = queries p"
    and "cancelled p' = cancelled p"
  using assms by (auto simp: run_waiter.simps split: waiter.splits if_splits)

lemma mark_names:
  "mark st i w = Inr w' \<Longrightarrow> map Name (Workers w') = map Name (Workers w)"
  by (simp add: mark_Inr map_update list_update_same_conv)

lemma Add_names:
  "Add s w = Inr (h, w') \<Longrightarrow> map Name (Workers w') = map Name (Workers w) @ [s]"
  by (simp add: Add_Inr)

lemma env_step_shape:
  assumes "env_step e p = Inr p'"
  shows "written p' = written p \<and> queries p' = queries p
    \<and> map Name (Workers (wset p')) = map Name (Workers (wset p)) @ added [e]"
  using assms
proof (cases rule: env_step_cases)
  case (Add s h w)
  then show ?thesis by (simp add: Add_names)
next
  case (Mark i st w)
  then show ?thesis by (auto simp: wake_waiter_keeps mark_names)
next
  case Cancel
  then show ?thesis by simp
next
  case Wait
  then show ?thesis by (simp add: run_waiter_keeps)
next
  case Wake
  then show ?thesis by auto
qed

lemma repaint_shape:
  "written (repaint tty e p) = written p @ [fst (print (tty (queries p)) e (wset p))]"
  "queries (repaint tty e p) = Suc (queries p)"
  "Workers (wset (repaint tty e p)) = Workers (wset p)"
  "wg (wset (repaint tty e p)) = wg (wset p)"
  "waiter (repaint tty e p) = waiter p"
  "cancelled (repaint tty e p) = cancelled p"
  by (simp_all add: repaint_def print_def Let_def split: prod.splits)

lemma frame_of_here:
  "frame_of tty (queries p) (map Name (Workers (wset p))) es (fst (print (tty (queries p)) e (wset p)))"
  unfolding frame_of_def by (rule exI [of _ 0], rule exI [of _ e], rule exI [of _ "wset p"]) simp

lemma frame_of_later:
  assumes "frame_of tty q (names @ added [e]) es f"
  shows "frame_of tty q names (e # es) f"
proof -
  from assms obtain k e' ws where f: "f = fst (print (tty q) e' ws)"
    and n: "map Name (Workers ws) = (names @ added [e]) @ take k (added es)"
    unfolding frame_of_def by blast
  have "(names @ added [e]) @ take k (added es)
          = names @ take (length (added [e]) + k) (added (e # es))"
    by (subst (2) added_Cons) simp
  with f n show ?thesis unfolding frame_of_def by metis
qed

lemma frame_of_skip:
  assumes "frame_of tty q names es f" and "added [e] = []"
  shows "frame_of tty q names (e # es) f"
  using frame_of_later [of tty q names e es f] assms by simp


lemma select_loop_frames:
  "\<exists>fs. written (final (select_loop tty es p)) = written p @ fs
     \<and> queries (final (select_loop tty es p)) = queries p + length fs
     \<and> (\<forall>j<length fs. frame_of tty (queries p + j) (map Name (Workers (wset p))) es (fs ! j))"
  (is "\<exists>fs. ?P es p fs")
proof (induction es arbitrary: p)
  case Nil
  show ?case by simp
next
  case (Cons e es)
  let ?f = "\<lambda>b. fst (print (tty (queries p)) b (wset p))"
  have now: "?P (e # es) p [?f b]" if "final (select_loop tty (e # es) p) = repaint tty b p" for b
    using that frame_of_here [of tty p "e # es" b] by (simp add: repaint_shape)
  have same: "\<exists>fs. ?P (e # es) p fs"
    if "select_loop tty (e # es) p = select_loop tty es p" and "added [e] = []"
  proof -
    from Cons.IH [of p] obtain fs where "?P es p fs" by blast
    with that have "?P (e # es) p fs" by (auto intro: frame_of_skip)
    then show ?thesis by blast
  qed
  show ?case
  proof (cases "e = WakeCancel \<or> e = WakeTimer \<or> e = WakeDone")
    case True
    then consider (ret) b where "final (select_loop tty (e # es) p) = repaint tty b p"
      | (skip) "select_loop tty (e # es) p = select_loop tty es p" "added [e] = []"
      | (tick) "e = WakeTimer"
      by (cases "cancelled p"; cases "waiter p = Released"; auto)
    then show ?thesis
    proof cases
      case (ret b)
      from now [OF this] show ?thesis by blast
    next
      case skip
      then show ?thesis by (rule same)
    next
      case tick
      let ?p1 = "repaint tty False p"
      from Cons.IH [of ?p1] obtain fs where fs: "?P es ?p1 fs" by blast
      have "?P (e # es) p (?f False # fs)"
      proof (intro conjI allI impI)
        show "written (final (select_loop tty (e # es) p)) = written p @ ?f False # fs"
          using fs tick by (simp add: repaint_shape)
        show "queries (final (select_loop tty (e # es) p)) = queries p + length (?f False # fs)"
          using fs tick by (simp add: repaint_shape)
        fix j assume j: "j < length (?f False # fs)"
        show "frame_of tty (queries p + j) (map Name (Workers (wset p))) (e # es) ((?f False # fs) ! j)"
        proof (cases j)
          case 0
          then show ?thesis using frame_of_here [of tty p "e # es" False] by simp
        next
          case (Suc j')
          with j fs have "frame_of tty (queries ?p1 + j') (map Name (Workers (wset ?p1))) es (fs ! j')"
            by simp
          then have "frame_of tty (queries p + j) (map Name (Workers (wset p))) es (fs ! j')"
            using Suc by (simp add: repaint_shape)
          then show ?thesis using Suc tick by (simp add: frame_of_skip)
        qed
      qed
      then show ?thesis by blast
    qed
  next
    case False
    then have unfold: "select_loop tty (e # es) p =
        (case env_step e p of Inl x \<Rightarrow> Panicked x p | Inr p' \<Rightarrow> select_loop tty es p')"
      by (simp add: select_loop_env)
    show ?thesis
    proof (cases "env_step e p")
      case (Inl x)
      with unfold have "?P (e # es) p []" by simp
      then show ?thesis by blast
    next
      case (Inr p1)
      note sh = env_step_shape [OF Inr]
      from Cons.IH [of p1] obtain fs where fs: "?P es p1 fs" by blast
      have "?P (e # es) p fs"
      proof (intro conjI allI impI)
        show "written (final (select_loop tty (e # es) p)) = written p @ fs"
          using fs unfold Inr sh by simp
        show "queries (final (select_loop tty (e # es) p)) = queries p + length fs"
          using fs unfold Inr sh by simp
        fix j assume "j < length fs"
        with fs sh have "frame_of tty (queries p + j) (map Name (Workers (wset p)) @ added [e]) es (fs ! j)"
          by simp
        then show "frame_of tty (queries p + j) (map Name (Workers (wset p))) (e # es) (fs ! j)"
          by (rule frame_of_later)
      qed
      then show ?thesis by blast
    qed
  qed
qed


lemma frame_of_added:
  "added es = added es' \<Longrightarrow> frame_of tty q names es f = frame_of tty q names es' f"
  by (simp add: frame_of_def)

lemma Print_select_loop:
  "Print tty ctx w es =
     select_loop tty (if tty 0 then es else filter (\<lambda>e. e \<noteq> WakeCancel \<and> e \<noteq> WakeTimer) es)
       (start ctx w)"
  by (simp add: Print_def await_done_select_loop)

lemma Print_frames:
  "queries (final (Print tty ctx w es)) = Suc (length (written (final (Print tty ctx w es))))"
  "j < length (written (final (Print tty ctx w es))) \<Longrightarrow>
     frame_of tty (Suc j) (map Name (Workers w)) es (written (final (Print tty ctx w es)) ! j)"
proof -
  let ?es = "if tty 0 then es else filter (\<lambda>e. e \<noteq> WakeCancel \<and> e \<noteq> WakeTimer) es"
  let ?p = "start ctx w"
  have ad: "added ?es = added es" by (simp add: added_filter)
  from select_loop_frames [of tty ?es ?p] obtain fs
    where w: "written (final (select_loop tty ?es ?p)) = fs"
      and q: "queries (final (select_loop tty ?es ?p)) = Suc (length fs)"
      and f: "\<forall>j<length fs. frame_of tty (Suc j) (map Name (Workers w)) ?es (fs ! j)"
    by (auto simp: start_def)
  from w q show "queries (final (Print tty ctx w es)) = Suc (length (written (final (Print tty ctx w es))))"
    by (simp only: Print_select_loop)
  assume "j < length (written (final (Print tty ctx w es)))"
  with w f have "frame_of tty (Suc j) (map Name (Workers w)) ?es (written (final (Print tty ctx w es)) ! j)"
    by (simp only: Print_select_loop)
  then show "frame_of tty (Suc j) (map Name (Workers w)) es (written (final (Print tty ctx w es)) ! j)"
    using frame_of_added [OF ad] by simp
qed

lemma status_line_glyph:
  "status_line red_cross green_check g
     = (\<lambda>v. ''  '' @ glyph True g (State v) @ '' '' @ Name v @ newline)"
  "status_line cross check ''-''
     = (\<lambda>v. ''  '' @ glyph False g (State v) @ '' '' @ Name v @ newline)"
  by (rule ext, simp add: status_line_def glyph_def)+

lemma print_block:
  "fst (print t e ws) =
     (if t then wipe (length (Workers ws)) else [])
       @ concat (map (\<lambda>v. ''  '' @ glyph t (fst (Next (spinner ws))) (State v) @ '' '' @ Name v @ newline)
           (Workers ws))
       @ (if t then hide_cursor @ (if e then show_cursor else Repeat cursor_up (length (Workers ws)))
          else [])"
  by (cases t)
    (simp_all add: print_True print_False status_line_glyph(1)
       status_line_glyph(2) [of "fst (Next (spinner ws))"])

subsection \<open>The order of the lines\<close>





subsection \<open>How Print returns\<close>

lemma select_loop_Returned:
  assumes "select_loop tty es p = Returned x p'"
  shows "\<exists>p0. p' = repaint tty True p0
          \<and> (x = ByCancel \<and> cancelled p0 \<or> x = ByDone \<and> waiter p0 = Released)"
  using assms
proof (induction es arbitrary: p)
  case Nil
  then show ?case by simp
next
  case (Cons e es)
  show ?case
  proof (cases "e = WakeCancel \<or> e = WakeTimer \<or> e = WakeDone")
    case True
    with Cons show ?thesis
      by (cases "cancelled p"; cases "waiter p = Released") auto
  next
    case False
    with Cons.prems have "\<exists>p1. select_loop tty es p1 = Returned x p'"
      by (auto simp: select_loop_env split: sum.splits)
    with Cons.IH show ?thesis by blast
  qed
qed

lemma Print_Returned:
  assumes "Print tty ctx w es = Returned x p"
  shows "\<exists>p0. p = repaint tty True p0
          \<and> (x = ByCancel \<and> cancelled p0 \<or> x = ByDone \<and> waiter p0 = Released)"
  using assms select_loop_Returned unfolding Print_select_loop by blast

lemma Print_last_frame:
  assumes "Print tty ctx w es = Returned x p"
  shows "written p \<noteq> []"
    and "\<exists>sp. last (written p) = fst (print (tty (length (written p))) True ((wset p)\<lparr>spinner := sp\<rparr>))"
proof -
  from Print_Returned [OF assms] obtain p0 where p: "p = repaint tty True p0" by blast
  from Print_frames(1) [of tty ctx w es] assms
  have q: "queries p = Suc (length (written p))" by simp
  from p q have q0: "queries p0 = length (written p)" by (simp add: repaint_shape)
  from p show "written p \<noteq> []" by (simp add: repaint_shape)
  have ws: "wset p0 = (wset p)\<lparr>spinner := spinner (wset p0)\<rparr>"
    unfolding p by (simp add: repaint_def print_def Let_def split: prod.splits)
  have "last (written p) = fst (print (tty (queries p0)) True (wset p0))"
    unfolding p by (simp add: repaint_shape)
  with q0 ws have "last (written p)
      = fst (print (tty (length (written p))) True ((wset p)\<lparr>spinner := spinner (wset p0)\<rparr>))"
    by simp
  then show "\<exists>sp. last (written p) = fst (print (tty (length (written p))) True ((wset p)\<lparr>spinner := sp\<rparr>))"
    by blast
qed

text \<open>
  C3, as the code has it. Whenever \<^verbatim>\<open>Print\<close> returns, by the case of the cancelled
  context or by the receive from \<^verbatim>\<open>done\<close>, its last repaint asks the terminal
  again, and that answer decides. When stdout is a terminal then, the repaint ends with
  the hide-cursor sequence followed by the show-cursor sequence, and these are the last
  bytes written: the cursor is shown when the call returns. When it is not, the repaint
  is the plain lines of the Workers and has no cursor sequence at all, whatever the
  answer at the entry was.
\<close>

theorem cursor_shown_by_last_check:
  assumes "Print tty ctx w es = Returned x p"
  shows "written p \<noteq> []
    \<and> (tty (length (written p)) \<longrightarrow>
         (\<exists>pre. last (written p) = pre @ hide_cursor @ show_cursor)
         \<and> (\<exists>pre. concat (written p) = pre @ hide_cursor @ show_cursor))
    \<and> (\<not> tty (length (written p)) \<longrightarrow>
         last (written p) = concat (map (status_line cross check ''-'') (Workers (wset p))))"
proof -
  note ne = Print_last_frame(1) [OF assms]
  from Print_last_frame(2) [OF assms] obtain sp
    where l: "last (written p)
                = fst (print (tty (length (written p))) True ((wset p)\<lparr>spinner := sp\<rparr>))"
    by blast
  have shown: "(\<exists>pre. last (written p) = pre @ hide_cursor @ show_cursor)
         \<and> (\<exists>pre. concat (written p) = pre @ hide_cursor @ show_cursor)"
    if "tty (length (written p))"
  proof -
    from l that have "\<exists>pre. last (written p) = pre @ hide_cursor @ show_cursor"
      by (simp add: print_True)
    then obtain pre where pre: "last (written p) = pre @ hide_cursor @ show_cursor" by blast
    from ne have "concat (written p) = concat (butlast (written p)) @ last (written p)"
      by (metis append_butlast_last_id concat_append concat.simps append_Nil2)
    with pre have "concat (written p)
        = (concat (butlast (written p)) @ pre) @ hide_cursor @ show_cursor"
      by simp
    with pre show ?thesis by blast
  qed
  have plain: "last (written p) = concat (map (status_line cross check ''-'') (Workers (wset p)))"
    if "\<not> tty (length (written p))"
    using l that by (simp add: print_False)
  from ne shown plain show ?thesis by blast
qed

lemma cancelled_run_returns:
  "Print (always True) False two_Workers [EvFail 0, EvCancel, WakeCancel]
     = Returned ByCancel (final cancelled_run)"
  "Active (Workers (wset (final cancelled_run)) ! 1)"
  unfolding cancelled_run_def by code_simp+

theorem cursor_shown_by_last_check_witness:
  "cancelled_run = Returned ByCancel (final cancelled_run)
   \<and> always True (length (written (final cancelled_run)))
   \<and> Active (Workers (wset (final cancelled_run)) ! 1)
   \<and> (\<exists>pre. concat (written (final cancelled_run)) = pre @ hide_cursor @ show_cursor)"
proof -
  have r: "cancelled_run = Returned ByCancel (final cancelled_run)"
    using cancelled_run_returns(1) by (simp add: cancelled_run_def)
  have t: "always True (length (written (final cancelled_run)))"
    by (simp add: always_def)
  from cursor_shown_by_last_check [OF cancelled_run_returns(1)] t
  have "\<exists>pre. concat (written (final cancelled_run)) = pre @ hide_cursor @ show_cursor"
    by blast
  with r t cancelled_run_returns(2) show ?thesis by blast
qed

text \<open>
  Stdout is a terminal at the entry and in the first repaint, which hides the cursor,
  and no terminal any more in the last repaint: \<^verbatim>\<open>Print\<close> waits in the loop of the
  terminal branch and returns, after cancellation as well as after completion, with
  the cursor hidden and never shown.
\<close>

theorem cursor_left_hidden:
  "two_checks 0
   \<and> Print two_checks False one_Worker [WakeTimer, EvCancel, WakeCancel]
       = Returned ByCancel
           \<lparr>wset = one_Worker\<lparr>spinner := \<lparr>pos = 1\<rparr>\<rparr>, cancelled = True,
            waiter = NotStarted, queries = 3,
            written = [wipe 1 @ ''  '' @ Box1 ! 0 @ '' a'' @ newline @ hide_cursor @ cursor_up,
                       ''  - a'' @ newline]\<rparr>
   \<and> Print two_checks False one_Worker [WakeTimer, EvDone 0, EvWait, WakeDone]
       = Returned ByDone
           \<lparr>wset = \<lparr>Workers = [\<lparr>State = Completed, Name = ''a'', parent = True\<rparr>], wg = 0,
                    spinner = \<lparr>pos = 1\<rparr>\<rparr>,
            cancelled = False, waiter = Released, queries = 3,
            written = [wipe 1 @ ''  '' @ Box1 ! 0 @ '' a'' @ newline @ hide_cursor @ cursor_up,
                       ''  '' @ check @ '' a'' @ newline]\<rparr>
   \<and> count_seq hide_cursor
        (concat (written (final (Print two_checks False one_Worker
           [WakeTimer, EvCancel, WakeCancel])))) = 1
   \<and> count_seq show_cursor
        (concat (written (final (Print two_checks False one_Worker
           [WakeTimer, EvCancel, WakeCancel])))) = 0"
  by code_simp

subsection \<open>The signed counter\<close>

lemma sint_succ:
  fixes c :: "32 word"
  assumes "0 \<le> sint c" and "0 \<le> sint (c + 1)"
  shows "sint (c + 1) = sint c + 1"
proof -
  have eq: "sint (c + 1) = signed_take_bit 31 (sint c + 1)"
    by (simp add: sint_word_ariths)
  have ub: "sint c < 2 ^ 31"
    using sint_lt [of c] by simp
  show ?thesis
  proof (cases "sint c + 1 < 2 ^ 31")
    case True
    with assms(1) have "signed_take_bit 31 (sint c + 1) = sint c + 1"
      by (intro signed_take_bit_int_eq_self) simp_all
    with eq show ?thesis by simp
  next
    case False
    then have "2 ^ 31 \<le> sint c + 1" by simp
    from signed_take_bit_int_less_eq [OF this]
    have "signed_take_bit 31 (sint c + 1) \<le> sint c + 1 - 4294967296" by simp
    moreover have "sint c < 2147483648" using ub by simp
    ultimately have "sint (c + 1) < 0" using eq by linarith
    with assms(2) show ?thesis by linarith
  qed
qed


subsection \<open>Print without a terminal\<close>

lemma env_step_keeps_waiting:
  assumes "env_step e p = Inr p'" and "0 < sint (wg (wset p))"
    and "waiter p = NotStarted \<or> waiter p = Waiting"
    and "\<forall>i. e \<noteq> EvDone i \<and> e \<noteq> EvFail i"
  shows "0 < sint (wg (wset p')) \<and> (waiter p' = NotStarted \<or> waiter p' = Waiting)"
  using assms(1)
proof (cases rule: env_step_cases)
  case (Add s h w)
  from Add(2) have nn: "0 \<le> sint (wg (wset p) + 1)" and w: "wg w = wg (wset p) + 1"
    by (simp_all add: Add_Inr)
  from assms(2) nn have "sint (wg (wset p) + 1) = sint (wg (wset p)) + 1"
    by (intro sint_succ) simp_all
  with assms(2,3) w Add(3) show ?thesis by simp
next
  case (Mark i st w)
  with assms(4) show ?thesis by auto
next
  case Cancel
  with assms show ?thesis by simp
next
  case Wait
  from assms(2) have "wg (wset p) \<noteq> 0" by auto
  with Wait assms(2,3) show ?thesis
    by (auto simp: run_waiter.simps split: waiter.splits)
next
  case Wake
  with assms show ?thesis by simp
qed

lemma await_done_needs_mark:
  assumes "0 < sint (wg (wset p))" and "waiter p = NotStarted \<or> waiter p = Waiting"
    and "\<forall>i. EvDone i \<notin> set es \<and> EvFail i \<notin> set es"
  shows "await_done tty es p \<noteq> Returned x p'"
  using assms
proof (induction es arbitrary: p)
  case Nil
  show ?case by simp
next
  case (Cons e es)
  show ?case
  proof (cases "e = WakeDone")
    case True
    with Cons show ?thesis by auto
  next
    case False
    show ?thesis
    proof (cases "env_step e p")
      case (Inl y)
      with False show ?thesis by (simp add: await_done_env)
    next
      case (Inr p1)
      from Cons.prems(3) have "\<forall>i. e \<noteq> EvDone i \<and> e \<noteq> EvFail i" by auto
      from env_step_keeps_waiting [OF Inr Cons.prems(1,2) this]
      have "0 < sint (wg (wset p1))" "waiter p1 = NotStarted \<or> waiter p1 = Waiting"
        by simp_all
      moreover from Cons.prems(3) have "\<forall>i. EvDone i \<notin> set es \<and> EvFail i \<notin> set es" by simp
      ultimately have "await_done tty es p1 \<noteq> Returned x p'" by (rule Cons.IH)
      with Inr False show ?thesis by (simp add: await_done_env)
    qed
  qed
qed

text \<open>
  Without a terminal at the entry, a call does not return as long as the counter is
  positive and no Worker reports, whatever else happens: cancelling the context, before
  or during the call, is among the events.
\<close>

lemma plain_Print_waits_for_report:
  assumes "\<not> tty 0" and "0 < sint (wg w)"
    and "\<forall>i. EvDone i \<notin> set es \<and> EvFail i \<notin> set es"
  shows "Print tty ctx w es \<noteq> Returned x p"
  using assms by (simp add: Print_def await_done_needs_mark start_def)

text \<open>
  Nor does it ever return by the case of the cancelled context: its branch has none.
\<close>

lemma await_done_not_ByCancel: "await_done tty es p \<noteq> Returned ByCancel p'"
proof (induction es arbitrary: p)
  case Nil
  show ?case by simp
next
  case (Cons e es)
  then show ?case by (cases e) (simp_all split: sum.splits)
qed

lemma plain_Print_never_returns_by_cancel:
  "\<not> tty 0 \<Longrightarrow> Print tty ctx w es \<noteq> Returned ByCancel p"
  by (simp add: Print_def await_done_not_ByCancel)

text \<open>
  C1. The claim does not hold of the code. The context is cancelled before the call and
  again during it, \<open>a\<close> is pending, and every channel operation is offered. Without a
  terminal \<^verbatim>\<open>Print\<close> has written nothing and has not returned: its branch waits in
  \<^verbatim>\<open><-done\<close> and never reads \<^verbatim>\<open>ctx.Done()\<close>, though the comment of \<^verbatim>\<open>Print\<close>
  calls it cancelable by the context. With a terminal, the same call with the same
  events takes the case \<^verbatim>\<open><-ctx.Done()\<close>, repaints once and for the last time, with
  \<open>a\<close> pending, and returns.
\<close>

theorem plain_Print_ignores_cancellation:
  "Print (always False) True one_Worker [EvWait, EvCancel, WakeCancel, WakeTimer, WakeDone]
     = Blocked \<lparr>wset = one_Worker, cancelled = True, waiter = Waiting, queries = 1, written = []\<rparr>
   \<and> Print (always True) True one_Worker [EvWait, EvCancel, WakeCancel, WakeTimer, WakeDone]
     = Returned ByCancel
         \<lparr>wset = one_Worker\<lparr>spinner := \<lparr>pos = 1\<rparr>\<rparr>, cancelled = True, waiter = Waiting,
          queries = 2,
          written = [wipe 1 @ ''  '' @ Box1 ! 0 @ '' a'' @ newline @ hide_cursor @ show_cursor]\<rparr>"
  by code_simp

subsection \<open>The terminal checks\<close>





subsection \<open>Glyphs, and the last repaint after completion\<close>

lemma print_is_block:
  "fst (print t e ws) = block t e (fst (Next (spinner ws))) (Workers ws)"
  by (simp add: print_block block_def)









subsection \<open>The text of a run, repaint by repaint\<close>








subsection \<open>The wipe section on the terminal\<close>

















subsection \<open>The last repaint after completion\<close>










text \<open>
  When \<open>b\<close> is added before the woken goroutine has run again, \<^verbatim>\<open>Wait\<close> finds the
  counter raised and panics.
\<close>

lemma add_before_woken_Wait_runs:
  "Print (always False) False one_Worker [EvWait, EvDone 0, EvAdd ''b'', EvWait, WakeDone]
     = Panicked WaitGroupReused
         \<lparr>wset = \<lparr>Workers = [\<lparr>State = Completed, Name = ''a'', parent = True\<rparr>,
                             \<lparr>State = Pending, Name = ''b'', parent = True\<rparr>],
                  wg = 1, spinner = spin_New\<rparr>,
          cancelled = False, waiter = Woken, queries = 1, written = []\<rparr>"
  by code_simp

subsection \<open>Print on a new set\<close>

text \<open>
  C7. \<^verbatim>\<open>Print\<close> on a new set, with a context that is not cancelled: the counter is
  zero, so \<^verbatim>\<open>Wait\<close> returns as soon as the goroutine calls it, and the receive from
  \<^verbatim>\<open>done\<close> ends the call after one repaint, the final one, which has no line of a
  Worker: on a terminal it hides and shows the cursor, otherwise it writes nothing.
  Whatever the events are, as long as they add no Worker every repaint is the block of
  no Worker.
\<close>

theorem Print_of_empty_set:
  "Print tty False New (EvWait # WakeDone # es) =
     Returned ByDone
       \<lparr>wset = New\<lparr>spinner := (if tty 1 then \<lparr>pos = 1\<rparr> else spin_New)\<rparr>,
        cancelled = False, waiter = Released, queries = 2,
        written = [if tty 1 then hide_cursor @ show_cursor else []]\<rparr>
   \<and> (added es = [] \<longrightarrow>
        (\<forall>j<length (written (final (Print tty ctx New es))).
           \<exists>e g. written (final (Print tty ctx New es)) ! j = block (tty (Suc j)) e g []))
   \<and> block True True g [] = hide_cursor @ show_cursor
   \<and> block True False g [] = hide_cursor
   \<and> block False e g [] = []"
proof -
  have a: "Print tty False New (EvWait # WakeDone # es) =
     Returned ByDone
       \<lparr>wset = New\<lparr>spinner := (if tty 1 then \<lparr>pos = 1\<rparr> else spin_New)\<rparr>,
        cancelled = False, waiter = Released, queries = 2,
        written = [if tty 1 then hide_cursor @ show_cursor else []]\<rparr>"
    by (cases "tty 0"; cases "tty 1")
      (simp_all add: Print_def start_def repaint_def print_def print_reads_def New_def
         spin_New_def Next_def Repeat_def Let_def run_waiter.simps)
  have b: "\<exists>e g. written (final (Print tty ctx New es)) ! j = block (tty (Suc j)) e g []"
    if "added es = []" and "j < length (written (final (Print tty ctx New es)))" for j
  proof -
    from Print_frames(2) [OF that(2)] that(1) obtain e ws
      where "written (final (Print tty ctx New es)) ! j = fst (print (tty (Suc j)) e ws)"
        and "Workers ws = []"
      unfolding frame_of_def by (auto simp: New_def)
    then have "written (final (Print tty ctx New es)) ! j
        = block (tty (Suc j)) e (fst (Next (spinner ws))) []"
      by (simp add: print_is_block)
    then show ?thesis by blast
  qed
  have c: "block True True g [] = hide_cursor @ show_cursor \<and> block True False g [] = hide_cursor
      \<and> block False e g [] = []"
    by (simp add: block_def wipe_def Repeat_def)
  from a b c show ?thesis by blast
qed

lemma idle_ticks_frames:
  "written (final idle_ticks) = [hide_cursor, hide_cursor @ show_cursor]"
  unfolding idle_ticks_def by code_simp

theorem Print_of_empty_set_witness:
  "added [WakeTimer, EvWait, WakeDone] = []
   \<and> written (final idle_ticks) = [hide_cursor, hide_cursor @ show_cursor]
   \<and> (\<exists>e g. written (final idle_ticks) ! 1 = block (always True (Suc 1)) e g [])"
proof -
  have h: "added [WakeTimer, EvWait, WakeDone] = []" by simp
  have l: "1 < length (written (final (Print (always True) False New [WakeTimer, EvWait, WakeDone])))"
    using idle_ticks_frames by (simp add: idle_ticks_def)
  from Print_of_empty_set [where tty = "always True" and ctx = False
      and es = "[WakeTimer, EvWait, WakeDone]"] h l
  have "\<exists>e g. written (final (Print (always True) False New [WakeTimer, EvWait, WakeDone])) ! 1
      = block (always True (Suc 1)) e g []"
    by blast
  with h idle_ticks_frames show ?thesis by (simp add: idle_ticks_def)
qed

end
